theory Spec2Isabelle
  imports Main "HOL-Library.Sublist"
begin

section \<open>Data model\<close>

text \<open>
  The album listing is JSON; the program reads the fields below from every media entry
  and from every comment of an entry (\<open>comment["user"]["nickname"]\<close> is the field
  \<open>nickname\<close>).
\<close>

record comment =
  isDeleted :: bool
  nickname :: string
  body :: string

record media =
  uuid :: string
  tookAt :: string
  contentType :: string
  expiringUrl :: string
  expiringVideoUrl :: "string option"
  comments :: "comment list"

text \<open>Exceptions that the program can raise, as values.\<close>

datatype error =
    ClientResponseError nat
  | FileNotFoundError string
  | IndexError
  | AssertionError
  | JSONDecodeError
  | TypeError

subsection \<open>The network\<close>

datatype request = GET string | POST string "(string \<times> string) list"

text \<open>
  A response carries its HTTP status, the path of the URL it finally came from
  (\<open>r.url.path\<close>, after redirects) and its body, as the sequence of chunks in which
  \<open>r.content.iter_chunked(1024)\<close> delivers it.
\<close>

record response =
  status :: nat
  url_path :: string
  content :: "string list"

definition text_of :: "response \<Rightarrow> string" where
  "text_of r = concat (content r)"

text \<open>The server answers a request depending on the requests it has seen before.\<close>

type_synonym server = "request list \<Rightarrow> request \<Rightarrow> response"

subsection \<open>The world the program acts on\<close>

datatype out_msg = Downloading string | Already_downloaded string

datatype err_msg = Password_required | Could_not_authenticate

record world =
  files :: "string \<rightharpoonup> string"
  requests :: "request list"
  stdout :: "out_msg list"
  stderr :: "err_msg list"

definition session_get :: "server \<Rightarrow> string \<Rightarrow> world \<Rightarrow> response \<times> world" where
  "session_get srv url w =
     (srv (requests w) (GET url), w\<lparr>requests := requests w @ [GET url]\<rparr>)"

definition session_post ::
  "server \<Rightarrow> string \<Rightarrow> (string \<times> string) list \<Rightarrow> world \<Rightarrow> response \<times> world" where
  "session_post srv url form w =
     (srv (requests w) (POST url form), w\<lparr>requests := requests w @ [POST url form]\<rparr>)"

definition raise_for_status :: "response \<Rightarrow> error option" where
  "raise_for_status r = (if 400 \<le> status r then Some (ClientResponseError (status r)) else None)"

subsection \<open>Library functions the program calls\<close>

text \<open>
  \<open>os.path.splitext\<close>, \<open>os.path.join\<close>, \<open>mimetypes.guess_extension\<close>,
  \<open>urllib.parse.urlparse(u).path\<close>, \<open>glob.glob\<close> and \<open>json.loads\<close> (followed by
  the lookup of \<open>"mediaFiles"\<close>) depend on the platform and on tables outside the
  program; they are parameters of the model. \<open>windows\<close> is
  \<open>platform.system() == "Windows"\<close>.
\<close>

record platform =
  windows :: bool
  splitext :: "string \<Rightarrow> string \<times> string"
  path_join :: "string \<Rightarrow> string \<Rightarrow> string"
  guess_extension :: "string \<Rightarrow> string option"
  urlparse_path :: "string \<Rightarrow> string"
  glob_tmp :: "string \<Rightarrow> (string \<rightharpoonup> string) \<Rightarrow> string list"
  json_mediaFiles :: "string \<Rightarrow> media list option"

section \<open>File operations\<close>

text \<open>
  \<open>open(p, "w")\<close> creates or truncates \<open>p\<close>; \<open>f.write\<close> appends to the open file;
  \<open>os.rename\<close> replaces the target and raises when the source is missing.
\<close>

datatype fsop = Open_w string | Write string string | Rename string string

fun exec_op :: "fsop \<Rightarrow> (string \<rightharpoonup> string) \<Rightarrow> error + (string \<rightharpoonup> string)" where
  "exec_op (Open_w p) fs = Inr (fs(p \<mapsto> []))"
| "exec_op (Write p s) fs = (case fs p of None \<Rightarrow> Inr fs | Some c \<Rightarrow> Inr (fs(p \<mapsto> c @ s)))"
| "exec_op (Rename a b) fs =
     (case fs a of None \<Rightarrow> Inl (FileNotFoundError a) | Some c \<Rightarrow> Inr ((fs(a := None))(b \<mapsto> c)))"

text \<open>A sequence of operations stops at the first one that raises; the files stay as they are then.\<close>

fun exec_ops :: "fsop list \<Rightarrow> (string \<rightharpoonup> string) \<Rightarrow> error option \<times> (string \<rightharpoonup> string)" where
  "exec_ops [] fs = (None, fs)"
| "exec_ops (x # xs) fs = (case exec_op x fs of Inl e \<Rightarrow> (Some e, fs) | Inr fs' \<Rightarrow> exec_ops xs fs')"

section \<open>save_comments\<close>

definition comment_filename :: "platform \<Rightarrow> string \<Rightarrow> string" where
  "comment_filename os destination_filename = fst (splitext os destination_filename) @ ''.md''"

definition render :: "comment \<Rightarrow> string" where
  "render c = ''**'' @ nickname c @ ''**: '' @ body c @ [CHR 0x0A, CHR 0x0A]"

fun comment_writes :: "string \<Rightarrow> comment list \<Rightarrow> fsop list" where
  "comment_writes p [] = []"
| "comment_writes p (c # cs) =
     (if \<not> isDeleted c then Write p (render c) # comment_writes p cs else comment_writes p cs)"

definition save_comments_ops :: "platform \<Rightarrow> string \<Rightarrow> comment list \<Rightarrow> fsop list" where
  "save_comments_ops os destination_filename cs =
     (let comment_f = comment_filename os destination_filename in
      Open_w (comment_f @ ''.tmp'') # comment_writes (comment_f @ ''.tmp'') cs
        @ [Rename (comment_f @ ''.tmp'') comment_f])"

definition save_comments ::
  "platform \<Rightarrow> string \<Rightarrow> comment list \<Rightarrow> (string \<rightharpoonup> string) \<Rightarrow> error option \<times> (string \<rightharpoonup> string)" where
  "save_comments os destination_filename cs fs =
     exec_ops (save_comments_ops os destination_filename cs) fs"

section \<open>download_media\<close>

record dm_args =
  dm_url :: string
  dm_dest :: string
  dm_media :: media
  dm_verbose :: bool

definition do_ops :: "fsop list \<Rightarrow> world \<Rightarrow> error option \<times> world" where
  "do_ops ops w = (case exec_ops ops (files w) of (e, fs) \<Rightarrow> (e, w\<lparr>files := fs\<rparr>))"

definition os_path_exists :: "string \<Rightarrow> world \<Rightarrow> bool" where
  "os_path_exists p w = (files w p \<noteq> None)"

definition print_if :: "bool \<Rightarrow> out_msg \<Rightarrow> world \<Rightarrow> world" where
  "print_if verbose msg w = (if verbose then w\<lparr>stdout := stdout w @ [msg]\<rparr> else w)"

text \<open>Lines 40 to 43: the progress message, the temporary file, the request.\<close>

definition dm_begin :: "server \<Rightarrow> dm_args \<Rightarrow> world \<Rightarrow> response \<times> world" where
  "dm_begin srv a w =
     (let w1 = print_if (dm_verbose a) (Downloading (uuid (dm_media a))) w;
          w2 = snd (do_ops [Open_w (dm_dest a @ ''.tmp'')] w1)
      in session_get srv (dm_url a) w2)"

text \<open>Lines 47 to 49: the rename, and the comments when the list is not empty.\<close>

definition dm_finish_ops :: "platform \<Rightarrow> dm_args \<Rightarrow> fsop list" where
  "dm_finish_ops os a =
     Rename (dm_dest a @ ''.tmp'') (dm_dest a)
       # (if comments (dm_media a) \<noteq> []
          then save_comments_ops os (dm_dest a) (comments (dm_media a)) else [])"

text \<open>
  Lines 42 to 47 as the file operations they perform, in order, for a body that arrives
  in the given chunks.
\<close>

definition media_write_ops :: "string \<Rightarrow> string list \<Rightarrow> fsop list" where
  "media_write_ops destination_filename chunks =
     Open_w (destination_filename @ ''.tmp'')
       # map (Write (destination_filename @ ''.tmp'')) chunks
       @ [Rename (destination_filename @ ''.tmp'') destination_filename]"

text \<open>The files when a sequence of operations is cut short after its first \<open>k\<close> operations.\<close>

definition interrupted :: "nat \<Rightarrow> fsop list \<Rightarrow> (string \<rightharpoonup> string) \<Rightarrow> (string \<rightharpoonup> string)" where
  "interrupted k ops fs = snd (exec_ops (take k ops) fs)"

text \<open>Line 51: the branch taken when the file is already there.\<close>

definition dm_skip :: "dm_args \<Rightarrow> world \<Rightarrow> world" where
  "dm_skip a w = print_if (dm_verbose a) (Already_downloaded (uuid (dm_media a))) w"

text \<open>The coroutine run from start to end with nothing else in between.\<close>

definition download_media ::
  "server \<Rightarrow> platform \<Rightarrow> dm_args \<Rightarrow> world \<Rightarrow> error option \<times> world" where
  "download_media srv os a w =
     (if \<not> os_path_exists (dm_dest a) w then
        (case dm_begin srv a w of (r, w1) \<Rightarrow>
           (case raise_for_status r of
              Some e \<Rightarrow> (Some e, w1)
            | None \<Rightarrow>
                do_ops (map (Write (dm_dest a @ ''.tmp'')) (content r) @ dm_finish_ops os a) w1))
      else (None, dm_skip a w))"

text \<open>
  The same coroutine, one resumption at a time. It suspends in \<open>await session.get\<close>
  and before every chunk of \<open>async for\<close>; between two suspension points it runs alone.
\<close>

datatype dm_pc = Start | Await_get response | Streaming "string list"

datatype 'c result = Suspended 'c | Finished | Failed error

fun download_media_resume ::
  "server \<Rightarrow> platform \<Rightarrow> dm_args \<Rightarrow> dm_pc \<Rightarrow> world \<Rightarrow> dm_pc result \<times> world" where
  "download_media_resume srv os a Start w =
     (if \<not> os_path_exists (dm_dest a) w then
        (case dm_begin srv a w of (r, w1) \<Rightarrow> (Suspended (Await_get r), w1))
      else (Finished, dm_skip a w))"
| "download_media_resume srv os a (Await_get r) w =
     (case raise_for_status r of
        Some e \<Rightarrow> (Failed e, w)
      | None \<Rightarrow> (Suspended (Streaming (content r)), w))"
| "download_media_resume srv os a (Streaming (c # cs)) w =
     (Suspended (Streaming cs), snd (do_ops [Write (dm_dest a @ ''.tmp'') c] w))"
| "download_media_resume srv os a (Streaming []) w =
     (case do_ops (dm_finish_ops os a) w of
        (None, w') \<Rightarrow> (Finished, w')
      | (Some e, w') \<Rightarrow> (Failed e, w'))"

text \<open>The coroutine resumed again and again, at most \<open>n\<close> times, with nothing in between.\<close>

fun run_alone ::
  "nat \<Rightarrow> server \<Rightarrow> platform \<Rightarrow> dm_args \<Rightarrow> dm_pc \<Rightarrow> world \<Rightarrow> (error option \<times> world) option" where
  "run_alone 0 srv os a pc w = None"
| "run_alone (Suc n) srv os a pc w =
     (case download_media_resume srv os a pc w of
        (Suspended pc', w') \<Rightarrow> run_alone n srv os a pc' w'
      | (Finished, w') \<Rightarrow> Some (None, w')
      | (Failed e, w') \<Rightarrow> Some (Some e, w'))"

section \<open>String operations of Python\<close>

text \<open>\<open>needle in s\<close>, for strings.\<close>

fun py_in :: "string \<Rightarrow> string \<Rightarrow> bool" where
  "py_in needle [] = (needle = [])"
| "py_in needle (c # cs) = (prefix needle (c # cs) \<or> py_in needle cs)"

text \<open>\<open>s.split(sep)\<close> for a separator that is not empty (the program only uses such).\<close>

function py_split :: "string \<Rightarrow> string \<Rightarrow> string list" where
  "py_split sep [] = [[]]"
| "py_split sep (c # cs) =
     (if sep \<noteq> [] \<and> prefix sep (c # cs) then [] # py_split sep (drop (length sep) (c # cs))
      else (case py_split sep cs of [] \<Rightarrow> [[c]] | p # ps \<Rightarrow> (c # p) # ps))"
  by pat_completeness auto
termination
  by (relation "measure (\<lambda>(sep, s). length s)") auto

definition py_index :: "'a list \<Rightarrow> nat \<Rightarrow> error + 'a" where
  "py_index xs i = (if i < length xs then Inr (xs ! i) else Inl IndexError)"

definition digit :: "nat \<Rightarrow> char" where
  "digit d = ''0123456789'' ! d"

function str_nat :: "nat \<Rightarrow> string" where
  "str_nat n = (if n < 10 then [digit n] else str_nat (n div 10) @ [digit (n mod 10)])"
  by pat_completeness auto
termination
  by (relation "measure id") auto

section \<open>async_main: enumeration of the album\<close>

record args =
  album_url :: string
  destination_directory :: string
  password :: "string option"
  verbose :: bool

text \<open>\<open>not args.password\<close> holds without a password and with the empty one.\<close>

definition password_value :: "args \<Rightarrow> string" where
  "password_value ar = (case password ar of None \<Rightarrow> [] | Some p \<Rightarrow> p)"

definition no_password :: "args \<Rightarrow> bool" where
  "no_password ar = (password_value ar = [])"

definition page_url :: "args \<Rightarrow> nat \<Rightarrow> string" where
  "page_url ar page = album_url ar @ ''?page='' @ str_nat page"

definition login_marker :: string where
  "login_marker = ''Please enter your password''"

definition token_marker :: string where
  "token_marker = ''name='' @ [CHR 0x22] @ ''authenticity_token'' @ [CHR 0x22] @ '' value='' @ [CHR 0x22]"

definition gon_start :: string where
  "gon_start = ''//<![CDATA['' @ [CHR 0x0A] @ ''window.gon={};gon.media=''"

definition gon_end :: string where
  "gon_end = '';gon.familyUserIdToColorMap=''"

text \<open>Lines 102 to 105.\<close>

definition authenticity_token :: "string \<Rightarrow> error + string" where
  "authenticity_token response_text =
     (case py_index (py_split token_marker response_text) 1 of
        Inl e \<Rightarrow> Inl e
      | Inr rest \<Rightarrow>
          (case py_index (py_split [CHR 0x22] rest) 0 of
             Inl e \<Rightarrow> Inl e
           | Inr tok \<Rightarrow> if tok = [] then Inl AssertionError else Inr tok))"

text \<open>Lines 118 to 121, with the lookup of \<open>data["mediaFiles"]\<close>.\<close>

definition media_files :: "platform \<Rightarrow> string \<Rightarrow> error + media list" where
  "media_files os response_text =
     (case py_index (py_split gon_start response_text) 1 of
        Inl e \<Rightarrow> Inl e
      | Inr rest \<Rightarrow>
          (case py_index (py_split gon_end rest) 0 of
             Inl e \<Rightarrow> Inl e
           | Inr page_text \<Rightarrow>
               (case json_mediaFiles os page_text of
                  None \<Rightarrow> Inl JSONDecodeError
                | Some ms \<Rightarrow> Inr ms)))"

text \<open>Lines 127 to 132: the name taken from the URL, with the time the item was taken.\<close>

definition url_filename :: "platform \<Rightarrow> media \<Rightarrow> string" where
  "url_filename os m =
     (let filename = last (py_split ''/''
            (urlparse_path os (case expiringVideoUrl m of Some v \<Rightarrow> v | None \<Rightarrow> expiringUrl m)));
          filename = tookAt m @ ''-'' @ filename
      in if windows os then filter (\<lambda>c. c \<noteq> CHR '':'') filename else filename)"

text \<open>Lines 133 to 138: \<open>filename + None\<close> raises.\<close>

definition destination_filename :: "platform \<Rightarrow> args \<Rightarrow> media \<Rightarrow> error + string" where
  "destination_filename os ar m =
     (let filename = url_filename os m in
      if snd (splitext os filename) = [] then
        (case guess_extension os (contentType m) of
           None \<Rightarrow> Inl TypeError
         | Some ext \<Rightarrow> Inr (path_join os (destination_directory ar) (filename @ ext)))
      else Inr (path_join os (destination_directory ar) filename))"

definition download_url :: "args \<Rightarrow> media \<Rightarrow> string" where
  "download_url ar m = album_url ar @ ''/media_files/'' @ uuid m @ ''/download''"

text \<open>The \<open>for\<close> loop of lines 126 to 148 over one page: it stops at the first item that raises.\<close>

fun make_coroutines :: "platform \<Rightarrow> args \<Rightarrow> media list \<Rightarrow> error + dm_args list" where
  "make_coroutines os ar [] = Inr []"
| "make_coroutines os ar (m # ms) =
     (case destination_filename os ar m of
        Inl e \<Rightarrow> Inl e
      | Inr d \<Rightarrow>
          (case make_coroutines os ar ms of
             Inl e \<Rightarrow> Inl e
           | Inr cs \<Rightarrow>
               Inr (\<lparr>dm_url = download_url ar m, dm_dest = d, dm_media = m,
                     dm_verbose = verbose ar\<rparr> # cs)))"

text \<open>
  How the part of \<open>async_main\<close> before line 150 ends: \<open>sys.exit\<close>, an exception that
  nothing catches, or the list of coroutines handed to \<open>gather_with_concurrency\<close>.
\<close>

datatype outcome = Exit nat | Crashed error | Dispatch "dm_args list"

text \<open>The \<open>while True\<close> loop of lines 92 to 148. It need not end: the value is \<open>None\<close> then.\<close>

partial_function (option) page_loop ::
  "server \<Rightarrow> platform \<Rightarrow> args \<Rightarrow> nat \<Rightarrow> dm_args list \<Rightarrow> world \<Rightarrow> (outcome \<times> world) option" where
  "page_loop srv os ar page download_coroutines w =
     (case session_get srv (page_url ar page) w of (r, w1) \<Rightarrow>
        if page = 1 \<and> py_in login_marker (text_of r) then
          if no_password ar then Some (Exit 1, w1\<lparr>stderr := stderr w1 @ [Password_required]\<rparr>)
          else
            (case authenticity_token (text_of r) of
               Inl e \<Rightarrow> Some (Crashed e, w1)
             | Inr tok \<Rightarrow>
                 (case session_post srv (album_url ar @ ''/login'')
                         [(''session[password]'', password_value ar), (''authenticity_token'', tok)] w1
                  of (r2, w2) \<Rightarrow>
                    if suffix ''/login'' (url_path r2)
                    then Some (Exit 1, w2\<lparr>stderr := stderr w2 @ [Could_not_authenticate]\<rparr>)
                    else page_loop srv os ar page download_coroutines w2))
        else
          (case media_files os (text_of r) of
             Inl e \<Rightarrow> Some (Crashed e, w1)
           | Inr ms \<Rightarrow>
               if ms = [] then Some (Dispatch download_coroutines, w1)
               else
                 (case make_coroutines os ar ms of
                    Inl e \<Rightarrow> Some (Crashed e, w1)
                  | Inr cs \<Rightarrow> page_loop srv os ar (page + 1) (download_coroutines @ cs) w1)))"

text \<open>Lines 84 and 85: temporary files of an interrupted run are removed.\<close>

definition cleanup :: "platform \<Rightarrow> args \<Rightarrow> world \<Rightarrow> world" where
  "cleanup os ar w =
     w\<lparr>files := foldl (\<lambda>fs tmp_file. fs(tmp_file := None)) (files w)
                  (glob_tmp os (destination_directory ar) (files w))\<rparr>"

definition async_main :: "server \<Rightarrow> platform \<Rightarrow> args \<Rightarrow> world \<Rightarrow> (outcome \<times> world) option" where
  "async_main srv os ar w = page_loop srv os ar 1 [] (cleanup os ar w)"

section \<open>gather_with_concurrency\<close>

text \<open>
  \<open>asyncio.gather\<close> makes one task of every \<open>sem_task\<close>. A task waits for the semaphore,
  or holds a permit and is at a suspension point of the coroutine it awaits, or has
  returned, or has raised. With \<open>return_exceptions\<close> left at its default, \<open>gather\<close>
  hands the first exception to the caller at once and cancels nothing; it returns when
  every task has returned. The event loop stops once \<open>async_main\<close> is over, and a task
  that is not finished then never runs again.
\<close>

datatype 'c task = Waiting 'c | Active 'c | Done | Raised error

datatype main_status = Main_waiting | Main_returned | Main_raised error

record ('c, 'w) gather_state =
  tasks :: "'c task list"
  permits :: nat
  main :: main_status
  loop_running :: bool
  env :: 'w

definition gather_with_concurrency :: "nat \<Rightarrow> 'c list \<Rightarrow> 'w \<Rightarrow> ('c, 'w) gather_state" where
  "gather_with_concurrency n coroutines w =
     \<lparr> tasks = map Waiting coroutines, permits = n,
       main = (if coroutines = [] then Main_returned else Main_waiting),
       loop_running = True, env = w \<rparr>"

text \<open>What the event loop does next: it runs task \<open>i\<close> up to its next suspension point, or it stops.\<close>

datatype event = Run nat | Stop

definition all_done :: "'c task list \<Rightarrow> bool" where
  "all_done ts = list_all (\<lambda>t. t = Done) ts"

fun settle :: "nat \<Rightarrow> 'c result \<times> 'w \<Rightarrow> ('c, 'w) gather_state \<Rightarrow> ('c, 'w) gather_state" where
  "settle i (Suspended c', w') s = s\<lparr>tasks := (tasks s)[i := Active c'], env := w'\<rparr>"
| "settle i (Finished, w') s =
     s\<lparr>tasks := (tasks s)[i := Done], permits := permits s + 1, env := w',
       main := (if main s = Main_waiting \<and> all_done ((tasks s)[i := Done])
                then Main_returned else main s)\<rparr>"
| "settle i (Failed e, w') s =
     s\<lparr>tasks := (tasks s)[i := Raised e], permits := permits s + 1, env := w',
       main := (if main s = Main_waiting then Main_raised e else main s)\<rparr>"

fun sched_step ::
  "('c \<Rightarrow> 'w \<Rightarrow> 'c result \<times> 'w) \<Rightarrow> event \<Rightarrow> ('c, 'w) gather_state \<Rightarrow> ('c, 'w) gather_state" where
  "sched_step resume (Run i) s =
     (if \<not> loop_running s \<or> length (tasks s) \<le> i then s
      else
        (case tasks s ! i of
           Waiting c \<Rightarrow>
             if 0 < permits s
             then settle i (resume c (env s)) (s\<lparr>permits := permits s - 1\<rparr>)
             else s
         | Active c \<Rightarrow> settle i (resume c (env s)) s
         | Done \<Rightarrow> s
         | Raised e \<Rightarrow> s))"
| "sched_step resume Stop s =
     (if main s \<noteq> Main_waiting then s\<lparr>loop_running := False\<rparr> else s)"

definition run_schedule ::
  "('c \<Rightarrow> 'w \<Rightarrow> 'c result \<times> 'w) \<Rightarrow> event list \<Rightarrow> ('c, 'w) gather_state \<Rightarrow> ('c, 'w) gather_state" where
  "run_schedule resume evs s = foldl (\<lambda>s ev. sched_step resume ev s) s evs"

text \<open>What the semaphore keeps: every permit is free or held by a task inside its coroutine.\<close>

definition is_active :: "'c task \<Rightarrow> bool" where
  "is_active t = (case t of Active c \<Rightarrow> True | _ \<Rightarrow> False)"

definition active_count :: "'c task list \<Rightarrow> nat" where
  "active_count ts = length (filter is_active ts)"

definition sem_inv :: "nat \<Rightarrow> ('c, 'w) gather_state \<Rightarrow> bool" where
  "sem_inv n s = (active_count (tasks s) + permits s = n)"

text \<open>
  What \<open>gather\<close> keeps: while the caller waits nothing has raised and the loop runs;
  the caller has the result when every task is done; the caller has the exception of a
  task that raised.
\<close>

definition gather_inv :: "('c, 'w) gather_state \<Rightarrow> bool" where
  "gather_inv s =
     ((case main s of
         Main_waiting \<Rightarrow> (\<forall>e. Raised e \<notin> set (tasks s)) \<and> loop_running s
       | Main_returned \<Rightarrow> all_done (tasks s)
       | Main_raised e \<Rightarrow> Raised e \<in> set (tasks s)))"

text \<open>The tasks of line 150: every coroutine with its arguments, not yet started.\<close>

definition dm_resume ::
  "server \<Rightarrow> platform \<Rightarrow> dm_args \<times> dm_pc \<Rightarrow> world \<Rightarrow> (dm_args \<times> dm_pc) result \<times> world" where
  "dm_resume srv os c w =
     (case download_media_resume srv os (fst c) (snd c) w of
        (Suspended pc', w') \<Rightarrow> (Suspended (fst c, pc'), w')
      | (Finished, w') \<Rightarrow> (Finished, w')
      | (Failed e, w') \<Rightarrow> (Failed e, w'))"

definition dispatch :: "dm_args list \<Rightarrow> world \<Rightarrow> (dm_args \<times> dm_pc, world) gather_state" where
  "dispatch download_coroutines w =
     gather_with_concurrency 4 (map (\<lambda>a. (a, Start)) download_coroutines) w"

definition exit_status :: "('c, 'w) gather_state \<Rightarrow> nat" where
  "exit_status s = (case main s of Main_raised e \<Rightarrow> 1 | _ \<Rightarrow> 0)"

section \<open>A POSIX platform for the examples\<close>

definition rfind :: "char \<Rightarrow> string \<Rightarrow> int" where
  "rfind c s =
     (if c \<in> set s then int (length s) - 1 - int (length (takeWhile (\<lambda>x. x \<noteq> c) (rev s)))
      else - 1)"

text \<open>\<open>posixpath.splitext\<close>: the extension starts at the last dot of the last component,
  unless only dots precede it there.\<close>

definition posix_splitext :: "string \<Rightarrow> string \<times> string" where
  "posix_splitext p =
     (let sepIndex = rfind (CHR ''/'') p; dotIndex = rfind (CHR ''.'') p in
      if dotIndex > sepIndex \<and>
         (\<exists>x \<in> set (take (nat (dotIndex - (sepIndex + 1))) (drop (nat (sepIndex + 1)) p)).
            x \<noteq> CHR ''.'')
      then (take (nat dotIndex) p, drop (nat dotIndex) p)
      else (p, []))"

definition posix_join :: "string \<Rightarrow> string \<Rightarrow> string" where
  "posix_join a b =
     (if prefix ''/'' b then b
      else if a = [] \<or> suffix ''/'' a then a @ b
      else a @ ''/'' @ b)"

text \<open>
  A table of two content types. The path of a URL is taken to be what precedes the
  query: it ends in the same component as \<open>urlparse(u).path\<close>, which is all the program
  reads of it. No temporary file is left from an earlier run, and the decoder of the
  listing is the one defined below.
\<close>

definition example_guess_extension :: "string \<Rightarrow> string option" where
  "example_guess_extension ct =
     (if ct = ''image/jpeg'' then Some ''.jpg''
      else if ct = ''video/mp4'' then Some ''.mp4''
      else None)"

text \<open>Two comments, one of them deleted, and items that carry them.\<close>

definition comment_A :: comment where
  "comment_A = \<lparr>isDeleted = False, nickname = ''A'', body = ''hi''\<rparr>"

definition comment_B :: comment where
  "comment_B = \<lparr>isDeleted = True, nickname = ''B'', body = ''x''\<rparr>"

definition example_media :: "string \<Rightarrow> string \<Rightarrow> comment list \<Rightarrow> media" where
  "example_media name ct cs =
     \<lparr>uuid = name, tookAt = ''2020'', contentType = ct,
      expiringUrl = ''https://cdn/m/'' @ name @ ''?sig=1'', expiringVideoUrl = None,
      comments = cs\<rparr>"

text \<open>A decoder that knows three listings.\<close>

definition example_json :: "string \<Rightarrow> media list option" where
  "example_json s =
     (if s = ''[]'' then Some []
      else if s = ''[a]'' then Some [example_media ''a.jpg'' ''image/jpeg'' [comment_A, comment_B]]
      else if s = ''[b]'' then Some [example_media ''b'' ''application/x-unknown'' []]
      else None)"

definition example_platform :: platform where
  "example_platform =
     \<lparr> windows = False, splitext = posix_splitext, path_join = posix_join,
       guess_extension = example_guess_extension,
       urlparse_path = takeWhile (\<lambda>c. c \<noteq> CHR ''?''),
       glob_tmp = (\<lambda>d fs. []),
       json_mediaFiles = example_json \<rparr>"

definition empty_world :: world where
  "empty_world = \<lparr>files = Map.empty, requests = [], stdout = [], stderr = []\<rparr>"

definition example_dm :: "string \<Rightarrow> comment list \<Rightarrow> dm_args" where
  "example_dm name cs =
     \<lparr>dm_url = ''https://album/media_files/'' @ name @ ''/download'',
      dm_dest = ''out/2020-'' @ name,
      dm_media = example_media name ''image/jpeg'' cs,
      dm_verbose = False\<rparr>"

text \<open>A server that has every item but \<open>missing.jpg\<close>.\<close>

definition download_server :: server where
  "download_server h rq =
     (if rq = GET ''https://album/media_files/missing.jpg/download''
      then \<lparr>status = 404, url_path = ''/media_files/missing.jpg/download'', content = []\<rparr>
      else \<lparr>status = 200, url_path = [], content = [''ab'', ''cd'']\<rparr>)"

text \<open>An album of one page, an album whose only item has an unknown type, a locked album.\<close>

definition example_args :: args where
  "example_args =
     \<lparr>album_url = ''https://album'', destination_directory = ''out'', password = None,
      verbose = False\<rparr>"

definition page_response :: "string \<Rightarrow> response" where
  "page_response listing =
     \<lparr>status = 200, url_path = ''/'',
      content = [''<script>'' @ gon_start @ listing @ gon_end @ ''{}</script>'']\<rparr>"

definition album_server :: server where
  "album_server h rq =
     (if rq = GET ''https://album?page=1'' then page_response ''[a]''
      else page_response ''[]'')"

definition unknown_type_server :: server where
  "unknown_type_server h rq =
     (if rq = GET ''https://album?page=1'' then page_response ''[b]''
      else page_response ''[]'')"

definition locked_server :: server where
  "locked_server h rq =
     \<lparr>status = 200, url_path = ''/login'',
      content = [''Please enter your password <input '' @ token_marker @ ''t0k'' @ [CHR 0x22] @ ''>'']\<rparr>"

text \<open>Five items for four permits, and a run in which the first of two items fails.\<close>

definition five_items :: "dm_args list" where
  "five_items = map (\<lambda>n. example_dm n []) [''a.jpg'', ''b.jpg'', ''c.jpg'', ''d.jpg'', ''e.jpg'']"

definition failing_run :: "(dm_args \<times> dm_pc, world) gather_state" where
  "failing_run =
     run_schedule (dm_resume download_server example_platform) [Run 0, Run 1, Run 0, Stop]
       (dispatch [example_dm ''missing.jpg'' [], example_dm ''a.jpg'' []] empty_world)"

section \<open>Properties\<close>

subsection \<open>Sequences of file operations\<close>

lemma exec_ops_append:
  "exec_ops (xs @ ys) fs =
     (case exec_ops xs fs of (None, fs') \<Rightarrow> exec_ops ys fs' | (Some e, fs') \<Rightarrow> (Some e, fs'))"
  by (induction xs arbitrary: fs) (auto split: sum.splits)

lemma exec_ops_writes:
  "fs t = Some c \<Longrightarrow> exec_ops (map (Write t) ys) fs = (None, fs(t \<mapsto> c @ concat ys))"
proof (induction ys arbitrary: fs c)
  case Nil
  then show ?case by (simp add: fun_upd_idem)
next
  case (Cons y ys)
  have "exec_ops (map (Write t) ys) (fs(t \<mapsto> c @ y)) = (None, (fs(t \<mapsto> c @ y))(t \<mapsto> (c @ y) @ concat ys))"
    by (rule Cons.IH) simp
  then have "exec_ops (map (Write t) ys) (fs(t \<mapsto> c @ y)) = (None, fs(t \<mapsto> c @ y @ concat ys))"
    by simp
  with Cons.prems show ?case by (auto simp: fun_eq_iff)
qed

lemma exec_ops_open_writes:
  "exec_ops (Open_w t # map (Write t) ys) fs = (None, fs(t \<mapsto> concat ys))"
  using exec_ops_writes [of "fs(t \<mapsto> [])" t "[]" ys] by simp

lemma exec_ops_tmp_rename:
  "exec_ops (Open_w t # map (Write t) ys @ [Rename t p]) fs = (None, (fs(t := None))(p \<mapsto> concat ys))"
proof -
  have "exec_ops ((Open_w t # map (Write t) ys) @ [Rename t p]) fs
          = (None, (fs(t := None))(p \<mapsto> concat ys))"
    unfolding exec_ops_append exec_ops_open_writes by simp
  then show ?thesis by simp
qed


lemma comment_writes_map:
  "comment_writes t cs = map (Write t) (map render (filter (\<lambda>c. \<not> isDeleted c) cs))"
  by (induction cs) auto

lemma tmp_neq: "p @ ''.tmp'' \<noteq> p"
  by simp


lemma save_comments_result:
  "save_comments os d cs fs =
     (None, (fs(comment_filename os d @ ''.tmp'' := None))
              (comment_filename os d \<mapsto> concat (map render (filter (\<lambda>c. \<not> isDeleted c) cs))))"
  unfolding save_comments_def save_comments_ops_def Let_def comment_writes_map
  by (rule exec_ops_tmp_rename)

subsection \<open>Enumeration and login\<close>

lemma requests_cleanup [simp]: "requests (cleanup os ar w) = requests w"
  and stderr_cleanup [simp]: "stderr (cleanup os ar w) = stderr w"
  and stdout_cleanup [simp]: "stdout (cleanup os ar w) = stdout w"
  by (simp_all add: cleanup_def)

lemma make_coroutines_ok:
  assumes "\<forall>m\<in>set ms. \<exists>d. destination_filename os ar m = Inr d"
  shows "\<exists>cs. make_coroutines os ar ms = Inr cs \<and> map dm_media cs = ms
           \<and> (\<forall>c\<in>set cs. dm_url c = download_url ar (dm_media c)
                  \<and> destination_filename os ar (dm_media c) = Inr (dm_dest c))"
  using assms
proof (induction ms)
  case Nil
  then show ?case by simp
next
  case (Cons m ms)
  then obtain d where d: "destination_filename os ar m = Inr d" by auto
  from Cons obtain cs where cs: "make_coroutines os ar ms = Inr cs" "map dm_media cs = ms"
    "\<forall>c\<in>set cs. dm_url c = download_url ar (dm_media c)
                  \<and> destination_filename os ar (dm_media c) = Inr (dm_dest c)"
    by auto
  show ?case using d cs by simp
qed

lemma page_loop_step:
  assumes "\<not> (page = 1 \<and> py_in login_marker (text_of (srv (requests w) (GET (page_url ar page)))))"
    and "media_files os (text_of (srv (requests w) (GET (page_url ar page)))) = Inr ms"
  shows "page_loop srv os ar page acc w =
           (if ms = [] then Some (Dispatch acc, w\<lparr>requests := requests w @ [GET (page_url ar page)]\<rparr>)
            else (case make_coroutines os ar ms of
                    Inl e \<Rightarrow> Some (Crashed e, w\<lparr>requests := requests w @ [GET (page_url ar page)]\<rparr>)
                  | Inr cs \<Rightarrow> page_loop srv os ar (page + 1) (acc @ cs)
                                (w\<lparr>requests := requests w @ [GET (page_url ar page)]\<rparr>)))"
proof -
  have c: "(page = 1 \<and> py_in login_marker (text_of (srv (requests w) (GET (page_url ar page)))))
             = False"
    using assms(1) by blast
  show ?thesis
    by (subst page_loop.simps) (simp only: session_get_def prod.case c if_False assms(2) sum.case)
qed

lemma page_loop_enumerates:
  assumes stub: "\<And>h i. 1 \<le> i \<Longrightarrow> i \<le> k + 1 \<Longrightarrow> srv h (GET (page_url ar i)) = fetch i"
    and first: "\<not> py_in login_marker (text_of (fetch 1))"
    and pages: "\<And>i. 1 \<le> i \<Longrightarrow> i \<le> k \<Longrightarrow>
                  media_files os (text_of (fetch i)) = Inr (pages i) \<and> pages i \<noteq> []
                  \<and> (\<forall>m\<in>set (pages i). \<exists>d. destination_filename os ar m = Inr d)"
    and last: "media_files os (text_of (fetch (k + 1))) = Inr []"
  shows "n = k + 1 - p \<Longrightarrow> 1 \<le> p \<Longrightarrow> p \<le> k + 1 \<Longrightarrow>
         \<exists>cs w'. page_loop srv os ar p acc w = Some (Dispatch (acc @ cs), w')
           \<and> map dm_media cs = concat (map pages [p..<Suc k])
           \<and> (\<forall>c\<in>set cs. dm_url c = download_url ar (dm_media c)
                  \<and> destination_filename os ar (dm_media c) = Inr (dm_dest c))
           \<and> requests w' = requests w @ map (\<lambda>i. GET (page_url ar i)) [p..<k + 2]
           \<and> files w' = files w"
proof (induction n arbitrary: p acc w)
  case 0
  then have p: "p = k + 1" by simp
  have sp: "srv (requests w) (GET (page_url ar p)) = fetch p"
    using stub [of p "requests w"] p by simp
  have nomark: "\<not> (p = 1 \<and> py_in login_marker (text_of (srv (requests w) (GET (page_url ar p)))))"
    unfolding sp using first by auto
  have mf: "media_files os (text_of (srv (requests w) (GET (page_url ar p)))) = Inr []"
    unfolding sp using last p by simp
  have "page_loop srv os ar p acc w =
          Some (Dispatch acc, w\<lparr>requests := requests w @ [GET (page_url ar p)]\<rparr>)"
    using page_loop_step [where srv = srv and w = w and ar = ar and page = p and os = os
                            and ms = "[]" and acc = acc, OF nomark mf]
    by simp
  then show ?case using p by simp
next
  case (Suc n)
  then have p: "1 \<le> p" "p \<le> k" by simp_all
  have sp: "srv (requests w) (GET (page_url ar p)) = fetch p"
    using stub [of p "requests w"] p by simp
  have nomark: "\<not> (p = 1 \<and> py_in login_marker (text_of (srv (requests w) (GET (page_url ar p)))))"
    unfolding sp using first by auto
  from pages [OF p] have pg: "media_files os (text_of (fetch p)) = Inr (pages p)" "pages p \<noteq> []"
    and ok: "\<forall>m\<in>set (pages p). \<exists>d. destination_filename os ar m = Inr d"
    by simp_all
  from make_coroutines_ok [OF ok] obtain cs1 where cs1:
    "make_coroutines os ar (pages p) = Inr cs1" "map dm_media cs1 = pages p"
    "\<forall>c\<in>set cs1. dm_url c = download_url ar (dm_media c)
                  \<and> destination_filename os ar (dm_media c) = Inr (dm_dest c)"
    by blast
  let ?w1 = "w\<lparr>requests := requests w @ [GET (page_url ar p)]\<rparr>"
  have step: "page_loop srv os ar p acc w = page_loop srv os ar (p + 1) (acc @ cs1) ?w1"
    using page_loop_step [where srv = srv and w = w and ar = ar and page = p and os = os
                            and ms = "pages p" and acc = acc, OF nomark] pg cs1(1) sp
    by simp
  have "n = k + 1 - (p + 1)" "1 \<le> p + 1" "p + 1 \<le> k + 1" using Suc.prems by simp_all
  from Suc.IH [OF this, of "acc @ cs1" ?w1] obtain cs2 w' where r:
    "page_loop srv os ar (p + 1) (acc @ cs1) ?w1 = Some (Dispatch ((acc @ cs1) @ cs2), w')"
    "map dm_media cs2 = concat (map pages [p + 1..<Suc k])"
    "\<forall>c\<in>set cs2. dm_url c = download_url ar (dm_media c)
                  \<and> destination_filename os ar (dm_media c) = Inr (dm_dest c)"
    "requests w' = requests ?w1 @ map (\<lambda>i. GET (page_url ar i)) [p + 1..<k + 2]"
    "files w' = files ?w1"
    by blast
  have upt1: "[p..<Suc k] = p # [p + 1..<Suc k]" using p by (simp add: upt_conv_Cons)
  have upt2: "[p..<k + 2] = p # [p + 1..<k + 2]" using p by (simp add: upt_conv_Cons)
  have "page_loop srv os ar p acc w = Some (Dispatch (acc @ (cs1 @ cs2)), w')"
    using step r(1) by simp
  moreover have "map dm_media (cs1 @ cs2) = concat (map pages [p..<Suc k])"
    unfolding upt1 using cs1(2) r(2) by simp
  moreover have "\<forall>c\<in>set (cs1 @ cs2). dm_url c = download_url ar (dm_media c)
                  \<and> destination_filename os ar (dm_media c) = Inr (dm_dest c)"
    using cs1(3) r(3) by auto
  moreover have "requests w' = requests w @ map (\<lambda>i. GET (page_url ar i)) [p..<k + 2]"
    unfolding upt2 using r(4) by simp
  moreover have "files w' = files w" using r(5) by simp
  ultimately show ?case by blast
qed

lemma destination_filename_error:
  "destination_filename os ar m = Inl e \<Longrightarrow> e = TypeError"
  by (auto simp: destination_filename_def Let_def split: if_splits option.splits)

lemma make_coroutines_error:
  "make_coroutines os ar ms = Inl e \<Longrightarrow> e = TypeError"
  by (induction ms arbitrary: e)
     (auto split: sum.splits dest: destination_filename_error)

lemma make_coroutines_raises:
  "m \<in> set ms \<Longrightarrow> destination_filename os ar m = Inl e \<Longrightarrow> make_coroutines os ar ms = Inl TypeError"
proof (induction ms)
  case Nil
  then show ?case by simp
next
  case (Cons x ms)
  then show ?case
    by (auto split: sum.splits dest: destination_filename_error make_coroutines_error)
qed

text \<open>
  Claim C3. Let the server answer the request for page \<open>i\<close> with \<open>fetch i\<close>, whatever
  came before, where the pages 1 to \<open>k\<close> list items (for each of which a file name can be
  built), page \<open>k + 1\<close> lists none and the first page does not ask for a password. Then
  \<open>async_main\<close> reaches line 150; the coroutines it has collected are those of the items of
  page 1, then of page 2, and so on up to page \<open>k\<close>, each with the download URL and the
  destination of its item; and the requests sent are those for the pages 1, 2, ...,
  \<open>k + 1\<close>, in this order, and no other.
\<close>

theorem enumeration_collects_pages:
  assumes "\<And>h i. 1 \<le> i \<Longrightarrow> i \<le> k + 1 \<Longrightarrow> srv h (GET (page_url ar i)) = fetch i"
    and "\<not> py_in login_marker (text_of (fetch 1))"
    and "\<And>i. 1 \<le> i \<Longrightarrow> i \<le> k \<Longrightarrow>
                  media_files os (text_of (fetch i)) = Inr (pages i) \<and> pages i \<noteq> []
                  \<and> (\<forall>m\<in>set (pages i). \<exists>d. destination_filename os ar m = Inr d)"
    and "media_files os (text_of (fetch (k + 1))) = Inr []"
  shows "\<exists>cs w'. async_main srv os ar w = Some (Dispatch cs, w')
           \<and> map dm_media cs = concat (map pages [1..<Suc k])
           \<and> (\<forall>c\<in>set cs. dm_url c = download_url ar (dm_media c)
                  \<and> destination_filename os ar (dm_media c) = Inr (dm_dest c))
           \<and> requests w' = requests w @ map (\<lambda>i. GET (page_url ar i)) [1..<k + 2]"
proof -
  have "requests (cleanup os ar w) = requests w" by (simp add: cleanup_def)
  moreover have "k = k + 1 - 1" "(1::nat) \<le> 1" "(1::nat) \<le> k + 1" by simp_all
  note page_loop_enumerates
         [where srv = srv and ar = ar and os = os and fetch = fetch and pages = pages and k = k
            and n = k and p = 1 and acc = "[]" and w = "cleanup os ar w", OF assms this]
  ultimately show ?thesis unfolding async_main_def by auto
qed

theorem enumeration_collects_pages_witness:
  "\<exists>cs w'. async_main album_server example_platform example_args empty_world = Some (Dispatch cs, w')
     \<and> map dm_media cs = [example_media ''a.jpg'' ''image/jpeg'' [comment_A, comment_B]]
     \<and> map dm_dest cs = [''out/2020-a.jpg'']
     \<and> requests w' = [GET ''https://album?page=1'', GET ''https://album?page=2'']"
proof -
  let ?m = "example_media ''a.jpg'' ''image/jpeg'' [comment_A, comment_B]"
  let ?fetch = "\<lambda>i::nat. if i = 1 then page_response ''[a]'' else page_response ''[]''"
  have u1: "page_url example_args 1 = ''https://album?page=1''"
    by (simp add: page_url_def example_args_def digit_def)
  have u2: "page_url example_args 2 = ''https://album?page=2''"
    by (simp add: page_url_def example_args_def digit_def)
  have u1': "page_url example_args (Suc 0) = ''https://album?page=1''"
    using u1 by simp
  have u2': "page_url example_args (Suc (Suc 0)) = ''https://album?page=2''"
    using u2 by (simp add: numeral_2_eq_2)
  have a1: "\<And>h i. 1 \<le> i \<Longrightarrow> i \<le> 1 + 1 \<Longrightarrow>
              album_server h (GET (page_url example_args i)) = ?fetch i"
  proof -
    fix h and i :: nat
    assume "1 \<le> i" "i \<le> 1 + 1"
    then have "i = 1 \<or> i = 2" by auto
    then show "album_server h (GET (page_url example_args i)) = ?fetch i"
      by (auto simp: u1 u2 album_server_def simp del: One_nat_def)
  qed
  have a2: "\<not> py_in login_marker (text_of (?fetch 1))"
    by (simp add: page_response_def text_of_def login_marker_def gon_start_def gon_end_def)
  have d: "destination_filename example_platform example_args ?m = Inr ''out/2020-a.jpg''"
  proof -
    have f: "url_filename example_platform ?m = ''2020-a.jpg''"
      by (simp add: url_filename_def example_platform_def example_media_def)
    show ?thesis
      unfolding destination_filename_def f Let_def
      by (simp add: example_platform_def posix_splitext_def rfind_def posix_join_def example_args_def
          suffix_to_prefix)
  qed
  have mf: "media_files example_platform (text_of (page_response ''[a]'')) = Inr [?m]"
    by (simp add: page_response_def text_of_def media_files_def
        gon_start_def gon_end_def py_index_def example_platform_def example_json_def)
  have a3: "\<And>i. 1 \<le> i \<Longrightarrow> i \<le> 1 \<Longrightarrow>
              media_files example_platform (text_of (?fetch i)) = Inr ((\<lambda>i. [?m]) i) \<and> (\<lambda>i. [?m]) i \<noteq> []
              \<and> (\<forall>m\<in>set ((\<lambda>i. [?m]) i). \<exists>d. destination_filename example_platform example_args m = Inr d)"
    using mf d by auto
  have a4: "media_files example_platform (text_of (?fetch (1 + 1))) = Inr []"
    by (simp add: page_response_def text_of_def media_files_def
        gon_start_def gon_end_def py_index_def example_platform_def example_json_def)
  from enumeration_collects_pages
         [where srv = album_server and ar = example_args and os = example_platform and k = 1
            and fetch = ?fetch and pages = "\<lambda>i. [?m]" and w = empty_world, OF a1 a2 a3 a4]
  obtain cs w' where r:
    "async_main album_server example_platform example_args empty_world = Some (Dispatch cs, w')"
    "map dm_media cs = [?m]"
    "\<forall>c\<in>set cs. destination_filename example_platform example_args (dm_media c) = Inr (dm_dest c)"
    "requests w' = [GET ''https://album?page=1'', GET ''https://album?page=2'']"
    by (auto simp: u1' u2' empty_world_def upt_conv_Cons)
  from r(2) obtain c where c: "cs = [c]" "dm_media c = ?m" by auto
  with r(3) d have "dm_dest c = ''out/2020-a.jpg''" by simp
  with r c show ?thesis by auto
qed

text \<open>
  Claim C8. When the first page asks for the password and none was given (or the empty
  one), \<open>async_main\<close> ends in \<open>sys.exit(1)\<close> with the message on the error stream.
  The request for page 1 is the only one sent: no login is posted, nothing is downloaded.
\<close>

theorem missing_password_aborts:
  assumes "py_in login_marker (text_of (srv (requests w) (GET (page_url ar 1))))"
    and "no_password ar"
  shows "async_main srv os ar w =
           Some (Exit 1, (cleanup os ar w)\<lparr>requests := requests w @ [GET (page_url ar 1)],
                                          stderr := stderr w @ [Password_required]\<rparr>)"
  using assms unfolding async_main_def
  by (subst page_loop.simps) (simp add: session_get_def)

theorem missing_password_aborts_witness:
  "async_main locked_server example_platform example_args empty_world =
     Some (Exit 1, empty_world\<lparr>requests := [GET ''https://album?page=1''],
                               stderr := [Password_required]\<rparr>)"
proof -
  have u: "page_url example_args 1 = ''https://album?page=1''"
    by (simp add: page_url_def example_args_def digit_def)
  have m: "py_in login_marker (text_of (locked_server (requests empty_world) (GET (page_url example_args 1))))"
    by (simp add: locked_server_def text_of_def login_marker_def)
  have n: "no_password example_args"
    by (simp add: no_password_def password_value_def example_args_def)
  have c: "cleanup example_platform example_args empty_world = empty_world"
    by (simp add: cleanup_def example_platform_def empty_world_def)
  from missing_password_aborts
         [where srv = locked_server and w = empty_world and ar = example_args
            and os = example_platform, OF m n]
  show ?thesis unfolding u c by (simp add: empty_world_def)
qed

text \<open>
  Claim C7. When the first page asks for the password, a password was given, the token
  is found and the answer to the login request still comes from a path that ends in
  \<open>/login\<close>, \<open>async_main\<close> ends in \<open>sys.exit(1)\<close> with the message on the error
  stream. The request for page 1 and the login are the only requests sent: nothing is
  downloaded.
\<close>

theorem rejected_login_aborts:
  assumes "py_in login_marker (text_of (srv (requests w) (GET (page_url ar 1))))"
    and "\<not> no_password ar"
    and "authenticity_token (text_of (srv (requests w) (GET (page_url ar 1)))) = Inr tok"
    and "login = POST (album_url ar @ ''/login'')
                   [(''session[password]'', password_value ar), (''authenticity_token'', tok)]"
    and "suffix ''/login'' (url_path (srv (requests w @ [GET (page_url ar 1)]) login))"
  shows "async_main srv os ar w =
           Some (Exit 1, (cleanup os ar w)\<lparr>requests := requests w @ [GET (page_url ar 1), login],
                                          stderr := stderr w @ [Could_not_authenticate]\<rparr>)"
  using assms unfolding async_main_def
  by (subst page_loop.simps) (simp add: session_get_def session_post_def)

theorem rejected_login_aborts_witness:
  "async_main locked_server example_platform (example_args\<lparr>password := Some ''secret''\<rparr>) empty_world =
     Some (Exit 1, empty_world\<lparr>requests := [GET ''https://album?page=1'',
                POST ''https://album/login''
                  [(''session[password]'', ''secret''), (''authenticity_token'', ''t0k'')]],
              stderr := [Could_not_authenticate]\<rparr>)"
proof -
  let ?ar = "example_args\<lparr>password := Some ''secret''\<rparr>"
  let ?login = "POST ''https://album/login''
                  [(''session[password]'', ''secret''), (''authenticity_token'', ''t0k'')]"
  have u: "page_url ?ar 1 = ''https://album?page=1''"
    by (simp add: page_url_def example_args_def digit_def)
  have m: "py_in login_marker (text_of (locked_server (requests empty_world) (GET (page_url ?ar 1))))"
    by (simp add: locked_server_def text_of_def login_marker_def)
  have n: "\<not> no_password ?ar"
    by (simp add: no_password_def password_value_def)
  have t: "authenticity_token (text_of (locked_server (requests empty_world) (GET (page_url ?ar 1))))
             = Inr ''t0k''"
    by (simp add: locked_server_def text_of_def authenticity_token_def token_marker_def py_index_def)
  have l: "?login = POST (album_url ?ar @ ''/login'')
                   [(''session[password]'', password_value ?ar), (''authenticity_token'', ''t0k'')]"
    by (simp add: example_args_def password_value_def)
  have r: "suffix ''/login''
             (url_path (locked_server (requests empty_world @ [GET (page_url ?ar 1)]) ?login))"
    by (simp add: locked_server_def)
  have c: "cleanup example_platform ?ar empty_world = empty_world"
    by (simp add: cleanup_def example_platform_def empty_world_def)
  from rejected_login_aborts
         [where srv = locked_server and w = empty_world and ar = ?ar and os = example_platform
            and tok = "''t0k''" and login = ?login, OF m n t l r]
  show ?thesis unfolding u c by (simp add: empty_world_def)
qed

text \<open>
  Claim C10. An item whose name from the URL has no extension and whose content type has
  no known extension: building its file name raises \<open>TypeError\<close>, and the loop, at
  whatever page the item is listed, ends with this exception after the request for that
  page. No coroutine is handed to the scheduler.
\<close>

theorem unknown_content_type_crashes:
  assumes "snd (splitext os (url_filename os m)) = []"
    and "guess_extension os (contentType m) = None"
    and "m \<in> set ms"
    and "media_files os (text_of (srv (requests w) (GET (page_url ar page)))) = Inr ms"
    and "page \<noteq> 1 \<or> \<not> py_in login_marker (text_of (srv (requests w) (GET (page_url ar page))))"
  shows "destination_filename os ar m = Inl TypeError
       \<and> page_loop srv os ar page download_coroutines w =
           Some (Crashed TypeError, w\<lparr>requests := requests w @ [GET (page_url ar page)]\<rparr>)"
proof -
  have d: "destination_filename os ar m = Inl TypeError"
    using assms(1,2) by (simp add: destination_filename_def)
  have mk: "make_coroutines os ar ms = Inl TypeError"
    using make_coroutines_raises [OF assms(3) d] .
  have ne: "ms \<noteq> []" using assms(3) by auto
  have "page_loop srv os ar page download_coroutines w =
           Some (Crashed TypeError, w\<lparr>requests := requests w @ [GET (page_url ar page)]\<rparr>)"
    using assms(4,5) mk ne
    by (subst page_loop.simps) (auto simp: session_get_def)
  with d show ?thesis by simp
qed

theorem unknown_content_type_crashes_witness:
  "destination_filename example_platform example_args (example_media ''b'' ''application/x-unknown'' [])
     = Inl TypeError
   \<and> async_main unknown_type_server example_platform example_args empty_world =
       Some (Crashed TypeError, empty_world\<lparr>requests := [GET ''https://album?page=1'']\<rparr>)"
proof -
  let ?m = "example_media ''b'' ''application/x-unknown'' []"
  have u: "page_url example_args 1 = ''https://album?page=1''"
    by (simp add: page_url_def example_args_def digit_def)
  have f: "url_filename example_platform ?m = ''2020-b''"
    by (simp add: url_filename_def example_platform_def example_media_def)
  have a1: "snd (splitext example_platform (url_filename example_platform ?m)) = []"
    unfolding f by (simp add: example_platform_def posix_splitext_def rfind_def)
  have a2: "guess_extension example_platform (contentType ?m) = None"
    by (simp add: example_platform_def example_guess_extension_def example_media_def)
  have a3: "?m \<in> set [?m]" by simp
  have a4: "media_files example_platform
              (text_of (unknown_type_server (requests empty_world) (GET (page_url example_args 1))))
            = Inr [?m]"
    unfolding u
    by (simp add: unknown_type_server_def page_response_def text_of_def media_files_def
        gon_start_def gon_end_def py_index_def example_platform_def example_json_def)
  have a5: "(1::nat) \<noteq> 1 \<or> \<not> py_in login_marker
              (text_of (unknown_type_server (requests empty_world) (GET (page_url example_args 1))))"
    unfolding u
    by (simp add: unknown_type_server_def page_response_def text_of_def login_marker_def
        gon_start_def gon_end_def)
  have c: "cleanup example_platform example_args empty_world = empty_world"
    by (simp add: cleanup_def example_platform_def empty_world_def)
  from unknown_content_type_crashes
         [where os = example_platform and m = ?m and ms = "[?m]" and srv = unknown_type_server
            and w = empty_world and ar = example_args and page = 1 and download_coroutines = "[]",
          OF a1 a2 a3 a4 a5]
  show ?thesis unfolding u async_main_def c by (simp add: empty_world_def)
qed

subsection \<open>Durable writes\<close>





lemma download_media_files:
  assumes "\<not> os_path_exists (dm_dest a) w"
    and "raise_for_status (fst (dm_begin srv a w)) = None"
  shows "files (snd (download_media srv os a w)) =
           snd (exec_ops (media_write_ops (dm_dest a) (content (fst (dm_begin srv a w)))
                  @ (if comments (dm_media a) \<noteq> []
                     then save_comments_ops os (dm_dest a) (comments (dm_media a)) else []))
                (files w))"
    and "files (snd (dm_begin srv a w)) = interrupted 1 (media_write_ops (dm_dest a) chunks) (files w)"
  using assms
  by (auto simp: download_media_def dm_begin_def do_ops_def session_get_def print_if_def
      media_write_ops_def dm_finish_ops_def interrupted_def Let_def split: prod.splits)



subsection \<open>Items that are already there\<close>

text \<open>
  Claim C1. When the final path of an item exists, \<open>download_media\<close> returns without
  an exception and leaves every file and the list of requests as they were: no request
  is sent, the media file is not overwritten, and a comment file that is missing stays
  missing. The coroutine ends in its first resumption.
\<close>

theorem download_media_existing_untouched:
  assumes "os_path_exists (dm_dest a) w"
  shows "fst (download_media srv os a w) = None
       \<and> files (snd (download_media srv os a w)) = files w
       \<and> requests (snd (download_media srv os a w)) = requests w
       \<and> download_media_resume srv os a Start w = (Finished, snd (download_media srv os a w))"
  using assms by (simp add: download_media_def dm_skip_def print_if_def)

theorem download_media_existing_untouched_witness:
  "os_path_exists (dm_dest (example_dm ''a.jpg'' [comment_A]))
       (empty_world\<lparr>files := [''out/2020-a.jpg'' \<mapsto> ''old'']\<rparr>)
   \<and> snd (download_media download_server example_platform (example_dm ''a.jpg'' [comment_A])
       (empty_world\<lparr>files := [''out/2020-a.jpg'' \<mapsto> ''old'']\<rparr>))
     = empty_world\<lparr>files := [''out/2020-a.jpg'' \<mapsto> ''old'']\<rparr>"
proof -
  let ?w = "empty_world\<lparr>files := [''out/2020-a.jpg'' \<mapsto> ''old'']\<rparr>"
  have h: "os_path_exists (dm_dest (example_dm ''a.jpg'' [comment_A])) ?w"
    by (simp add: os_path_exists_def example_dm_def)
  from download_media_existing_untouched [OF h, of download_server example_platform] h
  show ?thesis
    by (simp add: download_media_def dm_skip_def print_if_def example_dm_def)
qed

subsection \<open>The comment file\<close>

text \<open>
  Claim C9. After \<open>save_comments\<close> the comment file holds the comments that are not
  deleted, in their order, each as \<open>**nickname**: body\<close> and an empty line, and nothing
  else: the deleted comments could as well be absent from the list.
\<close>

theorem save_comments_content:
  "fst (save_comments os d cs fs) = None
   \<and> snd (save_comments os d cs fs) (comment_filename os d)
       = Some (concat (map render (filter (\<lambda>c. \<not> isDeleted c) cs)))
   \<and> save_comments os d cs fs = save_comments os d (filter (\<lambda>c. \<not> isDeleted c) cs) fs"
  by (simp add: save_comments_result)

theorem save_comments_content_witness:
  "snd (save_comments example_platform ''out/2020-a.jpg'' [comment_A, comment_B] Map.empty) ''out/2020-a.md''
     = Some (''**A**: hi'' @ [CHR 0x0A, CHR 0x0A])"
proof -
  have cf: "comment_filename example_platform ''out/2020-a.jpg'' = ''out/2020-a.md''"
    by (simp add: comment_filename_def example_platform_def posix_splitext_def rfind_def)
  have rendered: "concat (map render (filter (\<lambda>c. \<not> isDeleted c) [comment_A, comment_B]))
               = ''**A**: hi'' @ [CHR 0x0A, CHR 0x0A]"
    by (simp add: render_def comment_A_def comment_B_def)
  from save_comments_content [of example_platform "''out/2020-a.jpg''" "[comment_A, comment_B]" Map.empty]
  show ?thesis unfolding cf rendered by blast
qed

text \<open>
  Claim C4. An item whose only comment is deleted: the list of comments is not empty, so
  \<open>save_comments\<close> runs, writes nothing into the temporary file and renames it. An
  empty comment file exists afterwards.
\<close>

theorem all_deleted_comments_file_written:
  "fst (download_media download_server example_platform (example_dm ''a.jpg'' [comment_B]) empty_world) = None
   \<and> files (snd (download_media download_server example_platform (example_dm ''a.jpg'' [comment_B]) empty_world))
       ''out/2020-a.md'' = Some []"
  by (simp add: download_media_def dm_begin_def do_ops_def session_get_def download_server_def
      raise_for_status_def dm_finish_ops_def save_comments_ops_def comment_filename_def
      example_platform_def posix_splitext_def rfind_def example_dm_def example_media_def
      comment_B_def empty_world_def os_path_exists_def print_if_def)

subsection \<open>The coroutine and its resumptions\<close>

text \<open>
  Resumed often enough and alone, the coroutine does what \<open>download_media\<close> says: the
  two descriptions agree.
\<close>

lemma do_ops_write_first:
  "do_ops (Write t c # ops) w = do_ops ops (snd (do_ops [Write t c] w))"
  by (simp add: do_ops_def split: option.splits prod.splits)

lemma run_alone_streaming:
  "run_alone (Suc (length cs + n)) srv os a (Streaming cs) w =
     Some (do_ops (map (Write (dm_dest a @ ''.tmp'')) cs @ dm_finish_ops os a) w)"
proof (induction cs arbitrary: w)
  case Nil
  show ?case
    by (cases "do_ops (dm_finish_ops os a) w") (auto split: option.splits)
next
  case (Cons c cs)
  let ?t = "dm_dest a @ ''.tmp''"
  let ?w1 = "snd (do_ops [Write ?t c] w)"
  have "run_alone (Suc (length (c # cs) + n)) srv os a (Streaming (c # cs)) w =
          run_alone (Suc (length cs + n)) srv os a (Streaming cs) ?w1"
    by simp
  also have "\<dots> = Some (do_ops (map (Write ?t) cs @ dm_finish_ops os a) ?w1)"
    by (rule Cons.IH)
  also have "do_ops (map (Write ?t) cs @ dm_finish_ops os a) ?w1
               = do_ops (map (Write ?t) (c # cs) @ dm_finish_ops os a) w"
    using do_ops_write_first [of ?t c "map (Write ?t) cs @ dm_finish_ops os a" w]
    by (simp only: list.map append_Cons)
  finally show ?case .
qed

lemma run_alone_download_media:
  "run_alone (Suc (Suc (Suc (length (content (fst (dm_begin srv a w))) + n)))) srv os a Start w
     = Some (download_media srv os a w)"
proof (cases "os_path_exists (dm_dest a) w")
  case True
  then show ?thesis by (simp add: download_media_def)
next
  case False
  obtain r w1 where b: "dm_begin srv a w = (r, w1)" by (cases "dm_begin srv a w")
  have s1: "run_alone (Suc (Suc (Suc (length (content r) + n)))) srv os a Start w
              = run_alone (Suc (Suc (length (content r) + n))) srv os a (Await_get r) w1"
    using False b by (simp del: run_alone.simps add: run_alone.simps(2) [of _ srv os a Start])
  show ?thesis
  proof (cases "raise_for_status r")
    case None
    have s2: "run_alone (Suc (Suc (length (content r) + n))) srv os a (Await_get r) w1
                = run_alone (Suc (length (content r) + n)) srv os a (Streaming (content r)) w1"
      using None by (simp del: run_alone.simps add: run_alone.simps(2) [of _ srv os a "Await_get r"])
    have d: "download_media srv os a w =
               do_ops (map (Write (dm_dest a @ ''.tmp'')) (content r) @ dm_finish_ops os a) w1"
      using False b None by (simp add: download_media_def)
    have "run_alone (Suc (Suc (Suc (length (content r) + n)))) srv os a Start w
            = Some (download_media srv os a w)"
      unfolding s1 s2 d by (rule run_alone_streaming)
    then show ?thesis by (simp only: b fst_conv)
  next
    case (Some e)
    have s2: "run_alone (Suc (Suc (length (content r) + n))) srv os a (Await_get r) w1
                = Some (Some e, w1)"
      using Some by (simp del: run_alone.simps add: run_alone.simps(2) [of _ srv os a "Await_get r"])
    have d: "download_media srv os a w = (Some e, w1)"
      using False b Some by (simp add: download_media_def)
    have "run_alone (Suc (Suc (Suc (length (content r) + n)))) srv os a Start w
            = Some (download_media srv os a w)"
      unfolding s1 s2 d by (rule refl)
    then show ?thesis by (simp only: b fst_conv)
  qed
qed

subsection \<open>The scheduler\<close>

lemma active_count_update:
  "i < length ts \<Longrightarrow>
   active_count (ts[i := t]) + (if is_active (ts ! i) then 1 else 0)
     = active_count ts + (if is_active t then 1 else 0)"
proof (induction ts arbitrary: i)
  case Nil
  then show ?case by simp
next
  case (Cons a ts)
  show ?case
  proof (cases i)
    case 0
    then show ?thesis by (simp add: active_count_def is_active_def)
  next
    case (Suc j)
    with Cons.prems have "j < length ts" by simp
    from Cons.IH [OF this] show ?thesis
      using Suc by (simp add: active_count_def is_active_def)
  qed
qed

lemma active_count_waiting: "active_count (map Waiting cs) = 0"
  by (induction cs) (simp_all add: active_count_def is_active_def)

lemma settle_from_active:
  assumes "i < length (tasks s)" and "tasks s ! i = Active c" and "sem_inv n s"
  shows "sem_inv n (settle i rw s)"
proof -
  obtain r w' where rw: "rw = (r, w')" by (cases rw)
  have a: "is_active (tasks s ! i)" using assms(2) by (simp add: is_active_def)
  show ?thesis
  proof (cases r)
    case (Suspended c')
    with active_count_update [OF assms(1), of "Active c'"] a assms(3) rw
    show ?thesis by (simp add: sem_inv_def is_active_def)
  next
    case Finished
    with active_count_update [OF assms(1), of Done] a assms(3) rw
    show ?thesis by (simp add: sem_inv_def is_active_def)
  next
    case (Failed e)
    with active_count_update [OF assms(1), of "Raised e"] a assms(3) rw
    show ?thesis by (simp add: sem_inv_def is_active_def)
  qed
qed

lemma settle_from_waiting:
  assumes "i < length (tasks s)" and "tasks s ! i = Waiting c" and "sem_inv n s" and "0 < permits s"
  shows "sem_inv n (settle i rw (s\<lparr>permits := permits s - 1\<rparr>))"
proof -
  obtain r w' where rw: "rw = (r, w')" by (cases rw)
  have a: "\<not> is_active (tasks s ! i)" using assms(2) by (simp add: is_active_def)
  show ?thesis
  proof (cases r)
    case (Suspended c')
    with active_count_update [OF assms(1), of "Active c'"] a assms(3,4) rw
    show ?thesis by (simp add: sem_inv_def is_active_def)
  next
    case Finished
    with active_count_update [OF assms(1), of Done] a assms(3,4) rw
    show ?thesis by (simp add: sem_inv_def is_active_def)
  next
    case (Failed e)
    with active_count_update [OF assms(1), of "Raised e"] a assms(3,4) rw
    show ?thesis by (simp add: sem_inv_def is_active_def)
  qed
qed

lemma sched_step_sem_inv:
  assumes "sem_inv n s"
  shows "sem_inv n (sched_step resume ev s)"
proof (cases ev)
  case (Run i)
  show ?thesis
  proof (cases "\<not> loop_running s \<or> length (tasks s) \<le> i")
    case True
    with Run assms show ?thesis by auto
  next
    case False
    then have i: "i < length (tasks s)" by simp
    show ?thesis
    proof (cases "tasks s ! i")
      case (Waiting c)
      with settle_from_waiting [OF i Waiting assms] False Run assms show ?thesis by simp
    next
      case (Active c)
      with settle_from_active [OF i Active assms] False Run show ?thesis by simp
    next
      case Done
      with False Run assms show ?thesis by simp
    next
      case (Raised e)
      with False Run assms show ?thesis by simp
    qed
  qed
next
  case Stop
  with assms show ?thesis by (simp add: sem_inv_def)
qed

lemma run_schedule_snoc:
  "run_schedule resume (evs @ [ev]) s = sched_step resume ev (run_schedule resume evs s)"
  by (simp add: run_schedule_def)

lemma run_schedule_sem_inv:
  "sem_inv n (run_schedule resume evs (gather_with_concurrency n cs w))"
proof (induction evs rule: rev_induct)
  case Nil
  show ?case
    by (simp add: run_schedule_def sem_inv_def gather_with_concurrency_def active_count_waiting)
next
  case (snoc ev evs)
  then show ?case unfolding run_schedule_snoc by (rule sched_step_sem_inv)
qed

lemma settle_not_waiting:
  "i < length (tasks s) \<Longrightarrow> \<exists>c. tasks (settle i rw s) ! i = Active c \<or> tasks (settle i rw s) ! i = Done
      \<or> (\<exists>e. tasks (settle i rw s) ! i = Raised e)"
proof -
  assume i: "i < length (tasks s)"
  obtain r w' where rw: "rw = (r, w')" by (cases rw)
  show ?thesis using i rw by (cases r) auto
qed

lemma run_schedule_Cons:
  "run_schedule resume (ev # evs) s = run_schedule resume evs (sched_step resume ev s)"
  by (simp add: run_schedule_def)

lemma run_schedule_Nil: "run_schedule resume [] s = s"
  by (simp add: run_schedule_def)

lemmas eval_dm =
  dm_resume_def dm_begin_def do_ops_def session_get_def download_server_def
  raise_for_status_def dm_finish_ops_def example_dm_def example_media_def
  empty_world_def os_path_exists_def print_if_def dm_skip_def

lemma all_done_nth: "all_done ts \<Longrightarrow> i < length ts \<Longrightarrow> ts ! i = Done"
  by (simp add: all_done_def list_all_length)

lemma set_update_keep:
  "x \<in> set ts \<Longrightarrow> ts ! i \<noteq> x \<Longrightarrow> x \<in> set (ts[i := y])"
  by (metis in_set_conv_nth length_list_update nth_list_update_neq)

lemma set_update_new:
  "x \<in> set (ts[i := y]) \<Longrightarrow> x = y \<or> x \<in> set ts"
  by (metis in_set_conv_nth length_list_update nth_list_update_eq nth_list_update_neq)

lemma settle_gather_inv:
  assumes i: "i < length (tasks s)"
    and unsettled: "(\<exists>c. tasks s ! i = Waiting c) \<or> (\<exists>c. tasks s ! i = Active c)"
    and inv: "gather_inv s"
  shows "gather_inv (settle i rw s)"
proof -
  obtain r w' where rw: "rw = (r, w')" by (cases rw)
  have nd: "tasks s ! i \<noteq> Done" and nr: "\<And>e. tasks s ! i \<noteq> Raised e"
    using unsettled by auto
  have not_returned: "main s \<noteq> Main_returned"
  proof
    assume "main s = Main_returned"
    with inv have "all_done (tasks s)" by (simp add: gather_inv_def)
    from all_done_nth [OF this i] nd show False by simp
  qed
  show ?thesis
  proof (cases "main s")
    case Main_waiting
    with inv have none: "\<And>e. Raised e \<notin> set (tasks s)" and lr: "loop_running s"
      by (simp_all add: gather_inv_def)
    show ?thesis
    proof (cases r)
      case (Suspended c')
      have "\<And>e. Raised e \<notin> set ((tasks s)[i := Active c'])"
        using none set_update_new by fastforce
      with Suspended rw Main_waiting lr show ?thesis by (simp add: gather_inv_def)
    next
      case Finished
      have "\<And>e. Raised e \<notin> set ((tasks s)[i := Done])"
        using none set_update_new by fastforce
      with Finished rw Main_waiting lr show ?thesis by (simp add: gather_inv_def)
    next
      case (Failed e)
      have "Raised e \<in> set ((tasks s)[i := Raised e])"
        using i by (simp add: set_update_memI)
      with Failed rw Main_waiting show ?thesis by (simp add: gather_inv_def)
    qed
  next
    case Main_returned
    with not_returned show ?thesis by simp
  next
    case (Main_raised e0)
    with inv have "Raised e0 \<in> set (tasks s)" by (simp add: gather_inv_def)
    then have keep: "\<And>y. Raised e0 \<in> set ((tasks s)[i := y])"
      using set_update_keep nr by metis
    show ?thesis using keep rw Main_raised by (cases r) (simp_all add: gather_inv_def)
  qed
qed

lemma sched_step_gather_inv:
  assumes "gather_inv s"
  shows "gather_inv (sched_step resume ev s)"
proof (cases ev)
  case (Run i)
  show ?thesis
  proof (cases "\<not> loop_running s \<or> length (tasks s) \<le> i")
    case True
    with Run assms show ?thesis by auto
  next
    case False
    then have i: "i < length (tasks s)" by simp
    show ?thesis
    proof (cases "tasks s ! i")
      case (Waiting c)
      have inv': "gather_inv (s\<lparr>permits := permits s - 1\<rparr>)"
        using assms by (cases "main s") (simp_all add: gather_inv_def)
      have "gather_inv (settle i (resume c (env s)) (s\<lparr>permits := permits s - 1\<rparr>))"
        by (rule settle_gather_inv) (use i Waiting inv' in auto)
      with Waiting False Run assms show ?thesis by simp
    next
      case (Active c)
      have "gather_inv (settle i (resume c (env s)) s)"
        by (rule settle_gather_inv) (use i Active assms in auto)
      with Active False Run show ?thesis by simp
    next
      case Done
      with False Run assms show ?thesis by simp
    next
      case (Raised e)
      with False Run assms show ?thesis by simp
    qed
  qed
next
  case Stop
  with assms show ?thesis by (auto simp: gather_inv_def split: main_status.splits)
qed

lemma run_schedule_gather_inv:
  "gather_inv (run_schedule resume evs (gather_with_concurrency n cs w))"
proof (induction evs rule: rev_induct)
  case Nil
  show ?case
    by (auto simp: run_schedule_def gather_inv_def gather_with_concurrency_def all_done_def)
next
  case (snoc ev evs)
  then show ?case unfolding run_schedule_snoc by (rule sched_step_gather_inv)
qed

lemma settle_others:
  "j \<noteq> i \<Longrightarrow> tasks (settle i rw s) ! j = tasks s ! j"
proof -
  assume ji: "j \<noteq> i"
  obtain r w' where rw: "rw = (r, w')" by (cases rw)
  show ?thesis using ji rw by (cases r) simp_all
qed

lemma sched_step_others:
  "j \<noteq> i \<Longrightarrow> tasks (sched_step resume (Run i) s) ! j = tasks s ! j"
  by (auto simp: settle_others split: task.splits)

lemma settle_failed:
  "i < length (tasks s) \<Longrightarrow> main s = Main_waiting \<Longrightarrow>
   main (settle i (Failed e, w') s) = Main_raised e \<and> tasks (settle i (Failed e, w') s) ! i = Raised e"
  by simp

text \<open>
  Claim C6. Whatever the event loop does, in whatever order, after \<open>gather_with_concurrency\<close>
  with limit \<open>n\<close>: the tasks that are inside their coroutine are at most \<open>n\<close>, and
  together with the free permits exactly \<open>n\<close>. A task that waits is let in as soon as it
  gets its turn while a permit is free, and only then; a task that ends gives its permit
  back (the sum stays \<open>n\<close>). Line 150 passes the limit 4.
\<close>

theorem concurrency_bound:
  fixes resume :: "'c \<Rightarrow> 'w \<Rightarrow> 'c result \<times> 'w"
  shows
  "(let s = run_schedule resume evs (gather_with_concurrency n coroutines w) in
      active_count (tasks s) \<le> n
    \<and> active_count (tasks s) + permits s = n
    \<and> (\<forall>i c. loop_running s \<and> i < length (tasks s) \<and> tasks s ! i = Waiting c \<longrightarrow>
          (if 0 < permits s
           then \<not> (\<exists>c'. tasks (sched_step resume (Run i) s) ! i = Waiting c')
           else sched_step resume (Run i) s = s)))"
proof -
  let ?s = "run_schedule resume evs (gather_with_concurrency n coroutines w)"
  have inv: "active_count (tasks ?s) + permits ?s = n"
    using run_schedule_sem_inv [of n resume evs coroutines w] by (simp add: sem_inv_def)
  have refill: "\<not> (\<exists>c'. tasks (sched_step resume (Run i) ?s) ! i = Waiting c')"
    if "loop_running ?s" "i < length (tasks ?s)" "tasks ?s ! i = Waiting c" "0 < permits ?s"
    for i c
  proof -
    have "i < length (tasks (?s\<lparr>permits := permits ?s - 1\<rparr>))" using that by simp
    from settle_not_waiting [OF this, of "resume c (env ?s)"] that
    show ?thesis by auto
  qed
  have blocked: "sched_step resume (Run i) ?s = ?s"
    if "tasks ?s ! i = Waiting c" "\<not> 0 < permits ?s" for i c
    using that by simp
  show ?thesis unfolding Let_def using inv refill blocked by auto
qed

theorem concurrency_bound_witness:
  "active_count (tasks (run_schedule (dm_resume download_server example_platform)
       [Run 0, Run 1, Run 2, Run 3, Run 4] (dispatch five_items empty_world))) = 4
   \<and> sched_step (dm_resume download_server example_platform) (Run 4)
       (run_schedule (dm_resume download_server example_platform)
          [Run 0, Run 1, Run 2, Run 3, Run 4] (dispatch five_items empty_world))
     = run_schedule (dm_resume download_server example_platform)
          [Run 0, Run 1, Run 2, Run 3, Run 4] (dispatch five_items empty_world)
   \<and> active_count (tasks (run_schedule (dm_resume download_server example_platform)
       [Run 0, Run 1, Run 2, Run 3, Run 0, Run 0, Run 0, Run 0, Run 0]
       (dispatch five_items empty_world))) = 3
   \<and> \<not> (\<exists>c'. tasks (sched_step (dm_resume download_server example_platform) (Run 4)
       (run_schedule (dm_resume download_server example_platform)
          [Run 0, Run 1, Run 2, Run 3, Run 0, Run 0, Run 0, Run 0, Run 0]
          (dispatch five_items empty_world))) ! 4 = Waiting c')"
proof -
  let ?R = "dm_resume download_server example_platform"
  let ?s = "run_schedule ?R [Run 0, Run 1, Run 2, Run 3, Run 4] (dispatch five_items empty_world)"
  let ?s' = "run_schedule ?R [Run 0, Run 1, Run 2, Run 3, Run 0, Run 0, Run 0, Run 0, Run 0]
               (dispatch five_items empty_world)"
  note ev = run_schedule_Cons run_schedule_Nil dispatch_def gather_with_concurrency_def
    five_items_def eval_dm
  have p: "permits ?s = 0" by (simp add: ev)
  have t: "tasks ?s ! 4 = Waiting (example_dm ''e.jpg'' [], Start)" by (simp add: ev)
  have l: "loop_running ?s" "4 < length (tasks ?s)" by (simp_all add: ev)
  have p': "permits ?s' = 1" by (simp add: ev)
  have t': "tasks ?s' ! 4 = Waiting (example_dm ''e.jpg'' [], Start)" by (simp add: ev)
  have l': "loop_running ?s'" "4 < length (tasks ?s')" by (simp_all add: ev)
  from concurrency_bound [of ?R "[Run 0, Run 1, Run 2, Run 3, Run 4]" 4
         "map (\<lambda>a. (a, Start)) five_items" empty_world]
  have a: "active_count (tasks ?s) + permits ?s = 4"
    and b: "\<forall>i c. loop_running ?s \<and> i < length (tasks ?s) \<and> tasks ?s ! i = Waiting c \<longrightarrow>
          (if 0 < permits ?s
           then \<not> (\<exists>c'. tasks (sched_step ?R (Run i) ?s) ! i = Waiting c')
           else sched_step ?R (Run i) ?s = ?s)"
    unfolding Let_def dispatch_def by blast+
  from concurrency_bound [of ?R "[Run 0, Run 1, Run 2, Run 3, Run 0, Run 0, Run 0, Run 0, Run 0]" 4
         "map (\<lambda>a. (a, Start)) five_items" empty_world]
  have a': "active_count (tasks ?s') + permits ?s' = 4"
    and b': "\<forall>i c. loop_running ?s' \<and> i < length (tasks ?s') \<and> tasks ?s' ! i = Waiting c \<longrightarrow>
          (if 0 < permits ?s'
           then \<not> (\<exists>c'. tasks (sched_step ?R (Run i) ?s') ! i = Waiting c')
           else sched_step ?R (Run i) ?s' = ?s')"
    unfolding Let_def dispatch_def by blast+
  have c1: "active_count (tasks ?s) = 4" using a p by simp
  have c2: "sched_step ?R (Run 4) ?s = ?s" using b l t p by (simp del: sched_step.simps)
  have c3: "active_count (tasks ?s') = 3" using a' p' by simp
  have c4: "\<not> (\<exists>c'. tasks (sched_step ?R (Run 4) ?s') ! 4 = Waiting c')"
    using b' l' t' p' by (simp del: sched_step.simps)
  from c1 c2 c3 c4 show ?thesis by blast
qed

text \<open>
  Claim C5, as the specification states it, fails: two items, the first answered with
  status 404. Both start; the first resumes, \<open>raise_for_status\<close> raises, \<open>gather\<close>
  hands the exception to \<open>async_main\<close>, which ends, and the loop stops. The second item
  is still waiting for its response: its final file does not exist, its temporary file is
  left behind, and it never runs again.
\<close>

theorem failure_abandons_siblings:
  "\<not> loop_running failing_run
   \<and> main failing_run = Main_raised (ClientResponseError 404)
   \<and> exit_status failing_run = 1
   \<and> tasks failing_run ! 1 =
       Active (example_dm ''a.jpg'' [],
               Await_get \<lparr>status = 200, url_path = [], content = [''ab'', ''cd'']\<rparr>)
   \<and> files (env failing_run) ''out/2020-a.jpg'' = None
   \<and> sched_step (dm_resume download_server example_platform) (Run 1) failing_run = failing_run"
proof -
  have s: "failing_run =
     \<lparr>tasks = [Raised (ClientResponseError 404),
               Active (example_dm ''a.jpg'' [],
                 Await_get \<lparr>status = 200, url_path = [], content = [''ab'', ''cd'']\<rparr>)],
      permits = 3, main = Main_raised (ClientResponseError 404), loop_running = False,
      env = \<lparr>files = [''out/2020-missing.jpg.tmp'' \<mapsto> [], ''out/2020-a.jpg.tmp'' \<mapsto> []],
             requests = [GET ''https://album/media_files/missing.jpg/download'',
                         GET ''https://album/media_files/a.jpg/download''],
             stdout = [], stderr = []\<rparr>\<rparr>"
    by (simp add: failing_run_def run_schedule_Cons run_schedule_Nil dispatch_def
        gather_with_concurrency_def eval_dm)
  show ?thesis unfolding s by (simp add: exit_status_def)
qed

text \<open>
  Claim C5, amended. A failing download cancels nothing: the step of one task leaves the
  state of every other task as it was, and so does the end of the loop. The first task
  that raises makes \<open>gather\<close> raise at once, and from then on the loop may stop, whether
  or not the other tasks have finished. The exit status is 1 exactly when some task has
  raised, the exception reported is that of one of the tasks, and the caller gets a
  result only when every task is done. Failures are not collected.
\<close>

theorem first_failure_ends_run:
  fixes resume :: "'c \<Rightarrow> 'w \<Rightarrow> 'c result \<times> 'w"
  shows
  "(let s = run_schedule resume evs (gather_with_concurrency n coroutines w) in
      (\<forall>i j. j \<noteq> i \<longrightarrow> tasks (sched_step resume (Run i) s) ! j = tasks s ! j)
    \<and> tasks (sched_step resume Stop s) = tasks s
    \<and> (\<forall>i c e w'. loop_running s \<and> i < length (tasks s) \<and> tasks s ! i = Active c
          \<and> resume c (env s) = (Failed e, w') \<and> main s = Main_waiting \<longrightarrow>
          main (sched_step resume (Run i) s) = Main_raised e
          \<and> \<not> loop_running (sched_step resume Stop (sched_step resume (Run i) s)))
    \<and> ((\<exists>e. Raised e \<in> set (tasks s)) \<longleftrightarrow> exit_status s = 1)
    \<and> (\<forall>e. main s = Main_raised e \<longrightarrow> Raised e \<in> set (tasks s))
    \<and> (main s = Main_returned \<longrightarrow> all_done (tasks s))
    \<and> (\<not> loop_running s \<longrightarrow> main s \<noteq> Main_waiting))"
proof -
  let ?s = "run_schedule resume evs (gather_with_concurrency n coroutines w)"
  have inv: "gather_inv ?s" by (rule run_schedule_gather_inv)
  have a: "\<forall>i j. j \<noteq> i \<longrightarrow> tasks (sched_step resume (Run i) ?s) ! j = tasks ?s ! j"
    using sched_step_others by blast
  have b: "tasks (sched_step resume Stop ?s) = tasks ?s" by simp
  have c: "main (sched_step resume (Run i) ?s) = Main_raised e
          \<and> \<not> loop_running (sched_step resume Stop (sched_step resume (Run i) ?s))"
    if "loop_running ?s" "i < length (tasks ?s)" "tasks ?s ! i = Active c"
       "resume c (env ?s) = (Failed e, w')" "main ?s = Main_waiting" for i c e w'
    using that by simp
  have d: "(\<exists>e. Raised e \<in> set (tasks ?s)) \<longleftrightarrow> exit_status ?s = 1"
  proof (cases "main ?s")
    case Main_waiting
    with inv show ?thesis by (simp add: gather_inv_def exit_status_def)
  next
    case Main_returned
    with inv have "all_done (tasks ?s)" by (simp add: gather_inv_def)
    then have "\<And>e. Raised e \<notin> set (tasks ?s)" by (auto simp: all_done_def list_all_iff)
    with Main_returned show ?thesis by (simp add: exit_status_def)
  next
    case (Main_raised e)
    with inv show ?thesis by (auto simp: gather_inv_def exit_status_def)
  qed
  have e: "\<forall>e. main ?s = Main_raised e \<longrightarrow> Raised e \<in> set (tasks ?s)"
    using inv by (auto simp: gather_inv_def)
  have f: "main ?s = Main_returned \<longrightarrow> all_done (tasks ?s)"
    using inv by (auto simp: gather_inv_def)
  have g: "\<not> loop_running ?s \<longrightarrow> main ?s \<noteq> Main_waiting"
    using inv by (auto simp: gather_inv_def)
  show ?thesis unfolding Let_def using a b c d e f g by blast
qed

theorem first_failure_ends_run_witness:
  "exit_status failing_run = 1
   \<and> Raised (ClientResponseError 404) \<in> set (tasks failing_run)
   \<and> main failing_run \<noteq> Main_waiting
   \<and> main (sched_step (dm_resume download_server example_platform) (Run 0)
        (run_schedule (dm_resume download_server example_platform) [Run 0, Run 1]
           (dispatch [example_dm ''missing.jpg'' [], example_dm ''a.jpg'' []] empty_world)))
       = Main_raised (ClientResponseError 404)"
proof -
  let ?R = "dm_resume download_server example_platform"
  let ?s0 = "run_schedule ?R [Run 0, Run 1]
               (dispatch [example_dm ''missing.jpg'' [], example_dm ''a.jpg'' []] empty_world)"
  note ev = run_schedule_Cons run_schedule_Nil dispatch_def gather_with_concurrency_def eval_dm
  have lr: "\<not> loop_running failing_run" by (simp add: failing_run_def ev)
  have m: "main failing_run = Main_raised (ClientResponseError 404)"
    by (simp add: failing_run_def ev)
  from first_failure_ends_run [of ?R "[Run 0, Run 1, Run 0, Stop]" 4
         "map (\<lambda>a. (a, Start)) [example_dm ''missing.jpg'' [], example_dm ''a.jpg'' []]" empty_world]
  have "(\<forall>e. main failing_run = Main_raised e \<longrightarrow> Raised e \<in> set (tasks failing_run))
      \<and> ((\<exists>e. Raised e \<in> set (tasks failing_run)) \<longleftrightarrow> exit_status failing_run = 1)
      \<and> (\<not> loop_running failing_run \<longrightarrow> main failing_run \<noteq> Main_waiting)"
    unfolding Let_def failing_run_def dispatch_def by blast
  with lr m have first: "exit_status failing_run = 1
      \<and> Raised (ClientResponseError 404) \<in> set (tasks failing_run)
      \<and> main failing_run \<noteq> Main_waiting"
    by blast
  have h: "loop_running ?s0" "0 < length (tasks ?s0)" "main ?s0 = Main_waiting"
    by (simp_all add: ev)
  have t0: "tasks ?s0 ! 0 = Active (example_dm ''missing.jpg'' [],
              Await_get \<lparr>status = 404, url_path = ''/media_files/missing.jpg/download'', content = []\<rparr>)"
    by (simp add: ev)
  have r0: "?R (example_dm ''missing.jpg'' [],
              Await_get \<lparr>status = 404, url_path = ''/media_files/missing.jpg/download'', content = []\<rparr>)
              (env ?s0) = (Failed (ClientResponseError 404), env ?s0)"
    by (simp add: dm_resume_def raise_for_status_def)
  from first_failure_ends_run [of ?R "[Run 0, Run 1]" 4
         "map (\<lambda>a. (a, Start)) [example_dm ''missing.jpg'' [], example_dm ''a.jpg'' []]" empty_world]
  have "\<forall>i c e w'. loop_running ?s0 \<and> i < length (tasks ?s0) \<and> tasks ?s0 ! i = Active c
          \<and> ?R c (env ?s0) = (Failed e, w') \<and> main ?s0 = Main_waiting \<longrightarrow>
          main (sched_step ?R (Run i) ?s0) = Main_raised e
          \<and> \<not> loop_running (sched_step ?R Stop (sched_step ?R (Run i) ?s0))"
    unfolding Let_def dispatch_def by blast
  with h t0 r0 have "main (sched_step ?R (Run 0) ?s0) = Main_raised (ClientResponseError 404)"
    by blast
  with first show ?thesis by blast
qed

end
